theory Spec2Isabelle
  imports Main "HOL-Library.Word"
begin

section \<open>Strings of the host language\<close>

text \<open>
  The editor component (\<^verbatim>\<open>ui/src/components/Editor.tsx\<close>) works on JavaScript strings:
  sequences of 16-bit code units, compared unit by unit (the regular expression it builds
  carries no flag). A string literal of the theory is turned into such a sequence by
  \<open>js\<close>.
\<close>

type_synonym code_unit = "16 word"
type_synonym jstring = "code_unit list"

definition js :: "string \<Rightarrow> jstring" where
  "js s = map of_char s"

text \<open>\<^verbatim>\<open>Array.prototype.join\<close>: the elements, with the separator between neighbours.\<close>

fun join :: "jstring \<Rightarrow> jstring list \<Rightarrow> jstring" where
  "join sep [] = []"
| "join sep [x] = x"
| "join sep (x # y # ys) = x @ sep @ join sep (y # ys)"

section \<open>The structured document and its traversal\<close>

text \<open>
  The document is owned by the editing surface (ProseMirror, reached through Tiptap); the
  component only traverses it with \<^verbatim>\<open>doc.descendants\<close>. Of a node the component reads
  \<^verbatim>\<open>isText\<close>, \<^verbatim>\<open>text\<close> and \<^verbatim>\<open>isBlock\<close>; the host adds the position it reports for the
  node. The host's position scheme: a text node takes one position per code unit, a leaf
  node (a rule, a hard break) takes one position, every other node takes one position for
  its opening boundary, the positions of its content, and one for its closing boundary.
  The flag of \<open>LeafNode\<close> and \<open>BranchNode\<close> is \<^verbatim>\<open>isBlock\<close>.
\<close>

datatype pm_node = TextNode jstring | LeafNode bool | BranchNode bool "pm_node list"

type_synonym pm_doc = "pm_node list"

fun isText :: "pm_node \<Rightarrow> bool" where
  "isText (TextNode t) = True"
| "isText (LeafNode b) = False"
| "isText (BranchNode b cs) = False"

fun isBlock :: "pm_node \<Rightarrow> bool" where
  "isBlock (TextNode t) = False"
| "isBlock (LeafNode b) = b"
| "isBlock (BranchNode b cs) = b"

fun node_text :: "pm_node \<Rightarrow> jstring" where
  "node_text (TextNode t) = t"
| "node_text (LeafNode b) = []"
| "node_text (BranchNode b cs) = []"

fun nodeSize :: "pm_node \<Rightarrow> nat" where
  "nodeSize (TextNode t) = length t"
| "nodeSize (LeafNode b) = 1"
| "nodeSize (BranchNode b cs) = 2 + sum_list (map nodeSize cs)"

text \<open>
  \<^verbatim>\<open>doc.descendants(f)\<close> calls \<open>f\<close> on every descendant in document order (a node before
  its content, the content before the next sibling) with the position where the node
  starts; the first child of the document starts at position 0, the content of a node at
  the node's position plus one. The model returns the calls in order.
\<close>

fun descendants_node :: "pm_node \<Rightarrow> nat \<Rightarrow> (pm_node \<times> nat) list"
  and descendants_from :: "pm_node list \<Rightarrow> nat \<Rightarrow> (pm_node \<times> nat) list" where
  "descendants_node (TextNode t) p = [(TextNode t, p)]"
| "descendants_node (LeafNode b) p = [(LeafNode b, p)]"
| "descendants_node (BranchNode b cs) p = (BranchNode b cs, p) # descendants_from cs (p + 1)"
| "descendants_from [] p = []"
| "descendants_from (c # cs) p = descendants_node c p @ descendants_from cs (p + nodeSize c)"

definition descendants :: "pm_doc \<Rightarrow> (pm_node \<times> nat) list" where
  "descendants doc = descendants_from doc 0"

section \<open>The token sequence and the flat text\<close>

record token =
  "text" :: jstring
  pos :: nat
  isVirtual :: bool

text \<open>
  The callback of the traversal (Editor.tsx, lines 117 to 125): a text node pushes its text
  at its position, any other block node pushes a virtual newline at its position, every
  other node pushes nothing.
\<close>

definition nl :: jstring where
  "nl = [10]"

definition push_token :: "pm_node \<times> nat \<Rightarrow> token list" where
  "push_token v =
     (if isText (fst v) then [\<lparr>text = node_text (fst v), pos = snd v, isVirtual = False\<rparr>]
      else if isBlock (fst v) then [\<lparr>text = nl, pos = snd v, isVirtual = True\<rparr>]
      else [])"

definition tokens :: "pm_doc \<Rightarrow> token list" where
  "tokens doc = concat (map push_token (descendants doc))"

text \<open>\<^verbatim>\<open>tokens.map(t => t.text).join('')\<close>\<close>

definition fullText :: "token list \<Rightarrow> jstring" where
  "fullText ts = join [] (map text ts)"

text \<open>
  \<^verbatim>\<open>getPosFromIndex\<close> (lines 147 to 167). \<open>scan\<close> is the loop, with \<^verbatim>\<open>currentLen\<close> as
  its second argument; \<open>None\<close> is the loop running off the end of the tokens. Offsets are
  indices into the flat text (the loop is only entered with \<^verbatim>\<open>match.index\<close> and
  \<^verbatim>\<open>match.index + match[0].length\<close>), so they are natural numbers; the subtraction
  \<^verbatim>\<open>targetIndex - currentLen\<close> is reached only when \<^verbatim>\<open>currentLen <= targetIndex\<close>, every
  earlier token having failed the test.
\<close>

fun scan :: "token list \<Rightarrow> nat \<Rightarrow> nat \<Rightarrow> nat option" where
  "scan [] currentLen targetIndex = None"
| "scan (t # ts) currentLen targetIndex =
     (let tokenLen = length (text t) in
      if targetIndex < currentLen + tokenLen then
        (if isVirtual t then Some (pos t + 1)
         else Some (pos t + (targetIndex - currentLen)))
      else scan ts (currentLen + tokenLen) targetIndex)"

definition getPosFromIndex :: "token list \<Rightarrow> nat \<Rightarrow> nat" where
  "getPosFromIndex ts targetIndex =
     (case scan ts 0 targetIndex of
        Some p \<Rightarrow> p
      | None \<Rightarrow> (if ts = [] then 0 else pos (last ts) + length (text (last ts))))"

section \<open>Locating the sentence\<close>

text \<open>
  White space of the host language: what \<^verbatim>\<open>\s\<close> matches and what \<^verbatim>\<open>trim\<close>
  strips (tab, line feed, vertical tab, form feed, carriage return, space, no-break space,
  the Unicode space separators, the line and paragraph separators, the byte order mark).
\<close>

definition is_ws :: "code_unit \<Rightarrow> bool" where
  "is_ws c =
     (c = 0x9 \<or> c = 0xA \<or> c = 0xB \<or> c = 0xC \<or> c = 0xD \<or> c = 0x20 \<or> c = 0xA0 \<or>
      c = 0x1680 \<or> (0x2000 \<le> c \<and> c \<le> 0x200A) \<or> c = 0x2028 \<or> c = 0x2029 \<or>
      c = 0x202F \<or> c = 0x205F \<or> c = 0x3000 \<or> c = 0xFEFF)"

definition trim :: "jstring \<Rightarrow> jstring" where
  "trim s = rev (dropWhile is_ws (rev (dropWhile is_ws s)))"

text \<open>
  \<^verbatim>\<open>split(/\s+/)\<close>: the pieces between the maximal runs of white space, with an empty
  piece before a leading run and after a trailing one; the empty string gives one empty
  piece. \<open>split_scan\<close> reads the string once; its flag says that the last unit read was
  white space, its second argument is the piece being read.
\<close>

fun split_scan :: "bool \<Rightarrow> jstring \<Rightarrow> jstring \<Rightarrow> jstring list" where
  "split_scan sep cur [] = [cur]"
| "split_scan sep cur (c # cs) =
     (if is_ws c then (if sep then split_scan True [] cs else cur # split_scan True [] cs)
      else split_scan False (cur @ [c]) cs)"

definition split_ws :: "jstring \<Rightarrow> jstring list" where
  "split_ws s = split_scan False [] s"

definition backslash :: code_unit where
  "backslash = 0x5C"

definition plus_sign :: code_unit where
  "plus_sign = 0x2B"

definition letter_s :: code_unit where
  "letter_s = 0x73"

text \<open>
  \<^verbatim>\<open>escapeRegExp\<close> (lines 130 to 132) puts a backslash before each of the fourteen units
  of its character class; these are exactly the syntax characters of a pattern.
\<close>

definition special :: "code_unit \<Rightarrow> bool" where
  "special c = (c \<in> set (js ''.*+?^${}()|[]'') \<or> c = backslash)"

definition escapeRegExp :: "jstring \<Rightarrow> jstring" where
  "escapeRegExp s = concat (map (\<lambda>c. if special c then [backslash, c] else [c]) s)"

text \<open>The separator \<^verbatim>\<open>'\\s+'\<close> of line 137: a backslash, the letter s, a plus sign.\<close>

definition ws_plus :: jstring where
  "ws_plus = [backslash, letter_s, plus_sign]"

definition pattern_of :: "jstring \<Rightarrow> jstring" where
  "pattern_of original_sentence = join ws_plus (map escapeRegExp (split_ws (trim original_sentence)))"

text \<open>
  \<^verbatim>\<open>new RegExp(pattern)\<close>, for the patterns made of pattern characters, escaped syntax
  characters, the class \<^verbatim>\<open>\s\<close> and the quantifier \<^verbatim>\<open>+\<close>. On any other pattern (an
  unescaped syntax character, another escape, a quantifier with nothing to repeat) the
  model answers \<open>None\<close>: the constructor may throw there, or build an expression with
  operators that are not modelled. \<open>lex\<close> reads the pattern into atoms and plus signs,
  \<open>quantify\<close> attaches each plus sign to the atom before it.
\<close>

datatype atom = Chr code_unit | Space

datatype item = One atom | Plus atom

type_synonym regex = "item list"

datatype lexeme = LAtom atom | LPlus

fun lex :: "jstring \<Rightarrow> lexeme list option" where
  "lex [] = Some []"
| "lex [c] =
     (if c = backslash then None
      else if c = plus_sign then Some [LPlus]
      else if special c then None
      else Some [LAtom (Chr c)])"
| "lex (c # d # r) =
     (if c = backslash then
        (if d = letter_s then map_option (Cons (LAtom Space)) (lex r)
         else if special d then map_option (Cons (LAtom (Chr d))) (lex r)
         else None)
      else if c = plus_sign then map_option (Cons LPlus) (lex (d # r))
      else if special c then None
      else map_option (Cons (LAtom (Chr c))) (lex (d # r)))"

fun quantify :: "lexeme list \<Rightarrow> regex option" where
  "quantify [] = Some []"
| "quantify (LPlus # r) = None"
| "quantify (LAtom a # LPlus # r) = map_option (Cons (Plus a)) (quantify r)"
| "quantify (LAtom a # r) = map_option (Cons (One a)) (quantify r)"

definition RegExp :: "jstring \<Rightarrow> regex option" where
  "RegExp p = (case lex p of None \<Rightarrow> None | Some ls \<Rightarrow> quantify ls)"

text \<open>
  \<^verbatim>\<open>regex.exec(fullText)\<close> without flags: the backtracking matcher is tried at index 0,
  1, ... up to the length of the text, and the first index where it succeeds gives the
  match. \<open>match_here\<close> is the matcher at one index and returns the length of the match; a
  quantified atom is greedy: it takes one more repetition first, and gives it back when
  the rest fails.
\<close>

fun atom_ok :: "atom \<Rightarrow> code_unit \<Rightarrow> bool" where
  "atom_ok (Chr c) x = (x = c)"
| "atom_ok Space x = is_ws x"

fun match_here :: "regex \<Rightarrow> jstring \<Rightarrow> nat option" where
  "match_here [] s = Some 0"
| "match_here (One a # r) [] = None"
| "match_here (One a # r) (x # xs) =
     (if atom_ok a x then map_option Suc (match_here r xs) else None)"
| "match_here (Plus a # r) [] = None"
| "match_here (Plus a # r) (x # xs) =
     (if atom_ok a x then
        (case match_here (Plus a # r) xs of
           Some n \<Rightarrow> Some (Suc n)
         | None \<Rightarrow> map_option Suc (match_here r xs))
      else None)"

fun exec_from :: "regex \<Rightarrow> jstring \<Rightarrow> nat \<Rightarrow> (nat \<times> nat) option" where
  "exec_from r [] i = (case match_here r [] of Some n \<Rightarrow> Some (i, n) | None \<Rightarrow> None)"
| "exec_from r (x # xs) i =
     (case match_here r (x # xs) of Some n \<Rightarrow> Some (i, n) | None \<Rightarrow> exec_from r xs (Suc i))"

definition exec :: "regex \<Rightarrow> jstring \<Rightarrow> (nat \<times> nat) option" where
  "exec r s = exec_from r s 0"

text \<open>
  Lines 136 to 144 together: the pattern, the expression, the search. \<open>Found i n\<close> is a
  match with \<^verbatim>\<open>match.index = i\<close> and \<^verbatim>\<open>match[0].length = n\<close>.
\<close>

datatype located = Found nat nat | NotFound | PatternRejected

definition locate :: "jstring \<Rightarrow> jstring \<Rightarrow> located" where
  "locate flat original_sentence =
     (case RegExp (pattern_of original_sentence) of
        None \<Rightarrow> PatternRejected
      | Some regex \<Rightarrow>
          (case exec regex flat of
             Some (index, len) \<Rightarrow> Found index len
           | None \<Rightarrow> NotFound))"

section \<open>Feedback records and the application state\<close>

text \<open>The interfaces of \<^verbatim>\<open>ui/src/App.tsx\<close>, lines 7 to 23.\<close>

datatype status = Pending | Accepted | Rejected

datatype issue_type = Npov | Verifiability | Original_research | Style

datatype severity = High | Medium | Low

record Feedback =
  original_sentence :: jstring
  feedback :: jstring
  suggested_text :: jstring
  issue_type :: issue_type
  severity :: severity
  start_index :: int
  end_index :: int
  status :: status

text \<open>
  The application compares feedback records with \<^verbatim>\<open>===\<close>, that is by object identity.
  A record object is never changed in place (a status change builds a new object with the
  spread syntax), so an object is modelled by its identity and its fields, and \<^verbatim>\<open>===\<close>
  by equality of the identities. The copy built by a status change stands in the place of
  the object it copies and keeps its identity in the model.
\<close>

type_synonym feedback_ref = "nat \<times> Feedback"

definition same_object :: "feedback_ref \<Rightarrow> feedback_ref \<Rightarrow> bool" where
  "same_object a b = (fst a = fst b)"

record ReviewResponse =
  feedbacks :: "feedback_ref list"
  overall_score :: int
  summary :: jstring
  is_ready :: bool

text \<open>The two alerts of the acceptance (Editor.tsx, lines 182 and 187).\<close>

datatype alert = ErrorApplyingSuggestion | CouldNotFindSentence

text \<open>
  The state that the acceptance reads and writes: of \<^verbatim>\<open>App\<close> the review data, the
  selected record and the record to accept; of the editor its document (\<open>None\<close> while the
  editor is not created); and the alerts shown so far.
\<close>

record app =
  reviewData :: "ReviewResponse option"
  selectedFeedback :: "feedback_ref option"
  feedbackToAccept :: "feedback_ref option"
  editor :: "pm_doc option"
  alerts :: "alert list"

text \<open>\<^verbatim>\<open>handleAcceptFeedback\<close> and \<^verbatim>\<open>onFeedbackAccepted\<close> (App.tsx, lines 92 to 111).\<close>

definition handleAcceptFeedback :: "feedback_ref \<Rightarrow> app \<Rightarrow> app" where
  "handleAcceptFeedback fb st = st\<lparr>feedbackToAccept := Some fb\<rparr>"

definition onFeedbackAccepted :: "feedback_ref \<Rightarrow> app \<Rightarrow> app" where
  "onFeedbackAccepted fb st =
     (case reviewData st of
        None \<Rightarrow> st
      | Some rd \<Rightarrow>
          st\<lparr>reviewData :=
               Some (rd\<lparr>feedbacks :=
                 map (\<lambda>x. if same_object x fb then (fst x, (snd x)\<lparr>status := Accepted\<rparr>) else x)
                   (feedbacks rd)\<rparr>),
             feedbackToAccept := None,
             selectedFeedback := None\<rparr>)"

section \<open>Accepting a suggestion\<close>

text \<open>
  The edit \<^verbatim>\<open>editor.chain().focus().deleteRange({from, to}).insertContentAt(from, text).run()\<close>
  is the host's. It is a parameter of the model: given the document, \<open>from\<close>, \<open>to\<close> and
  the text, it either returns with the document it has produced, or raises, leaving the
  document in some state of its own choosing.
\<close>

datatype edit_result = Applied pm_doc | Raised pm_doc

type_synonym host = "pm_doc \<Rightarrow> nat \<Rightarrow> nat \<Rightarrow> jstring \<Rightarrow> edit_result"

text \<open>
  What one run of the acceptance does: the document it leaves, the alert it shows, and the
  record it hands to \<^verbatim>\<open>onAcceptComplete\<close>. The expression is built outside the
  \<^verbatim>\<open>try\<close>, so a pattern that the constructor rejects would leave the effect uncaught.
\<close>

record effects =
  doc_after :: pm_doc
  alerted :: "alert option"
  completed :: "feedback_ref option"

datatype uncaught = PatternError

definition accept_feedback :: "host \<Rightarrow> pm_doc \<Rightarrow> feedback_ref \<Rightarrow> uncaught + effects" where
  "accept_feedback host doc fb =
     (let ts = tokens doc;
          full = fullText ts
      in case locate full (original_sentence (snd fb)) of
           PatternRejected \<Rightarrow> Inl PatternError
         | Found startIndex len \<Rightarrow>
             (let endIndex = startIndex + len;
                  from = getPosFromIndex ts startIndex;
                  to = getPosFromIndex ts endIndex
              in case host doc from to (suggested_text (snd fb)) of
                   Applied d \<Rightarrow> Inr \<lparr>doc_after = d, alerted = None, completed = Some fb\<rparr>
                 | Raised d \<Rightarrow>
                     Inr \<lparr>doc_after = d, alerted = Some ErrorApplyingSuggestion, completed = None\<rparr>)
         | NotFound \<Rightarrow>
             Inr \<lparr>doc_after = doc, alerted = Some CouldNotFindSentence, completed = None\<rparr>)"

text \<open>
  The effect inside the application (Editor.tsx, lines 108 to 190): nothing happens without
  an editor or without a record to accept; otherwise the document and the alerts are
  updated and, when the acceptance completed, \<^verbatim>\<open>onFeedbackAccepted\<close> runs.
\<close>

definition accept_effect :: "host \<Rightarrow> app \<Rightarrow> uncaught + app" where
  "accept_effect host st =
     (case editor st of
        None \<Rightarrow> Inr st
      | Some doc \<Rightarrow>
          (case feedbackToAccept st of
             None \<Rightarrow> Inr st
           | Some fb \<Rightarrow>
               (case accept_feedback host doc fb of
                  Inl e \<Rightarrow> Inl e
                | Inr eff \<Rightarrow>
                    (let st' = st\<lparr>editor := Some (doc_after eff),
                                  alerts := alerts st @ (case alerted eff of None \<Rightarrow> [] | Some a \<Rightarrow> [a])\<rparr>
                     in case completed eff of
                          None \<Rightarrow> Inr st'
                        | Some done \<Rightarrow> Inr (onFeedbackAccepted done st')))))"

text \<open>
  A host for running the scenarios, editing text only: \<open>delete_nodes\<close> removes the code
  units at the positions from \<open>from\<close> up to \<open>to\<close> (a text node left empty disappears),
  \<open>insert_nodes\<close> puts a text at a position, inside or next to the text node there or as
  a new text node, and the host raises on a range outside the document. On a range inside
  one block of text this is what the editing surface does.
\<close>

fun keep_outside :: "nat \<Rightarrow> nat \<Rightarrow> nat \<Rightarrow> jstring \<Rightarrow> jstring" where
  "keep_outside p from to [] = []"
| "keep_outside p from to (c # cs) =
     (if from \<le> p \<and> p < to then [] else [c]) @ keep_outside (Suc p) from to cs"

fun delete_node :: "pm_node \<Rightarrow> nat \<Rightarrow> nat \<Rightarrow> nat \<Rightarrow> pm_node list"
  and delete_nodes :: "pm_node list \<Rightarrow> nat \<Rightarrow> nat \<Rightarrow> nat \<Rightarrow> pm_node list" where
  "delete_node (TextNode t) p from to =
     (if keep_outside p from to t = [] then [] else [TextNode (keep_outside p from to t)])"
| "delete_node (LeafNode b) p from to = [LeafNode b]"
| "delete_node (BranchNode b cs) p from to = [BranchNode b (delete_nodes cs (p + 1) from to)]"
| "delete_nodes [] p from to = []"
| "delete_nodes (c # cs) p from to =
     delete_node c p from to @ delete_nodes cs (p + nodeSize c) from to"

fun insert_node :: "pm_node \<Rightarrow> nat \<Rightarrow> nat \<Rightarrow> jstring \<Rightarrow> pm_node option"
  and insert_nodes :: "pm_node list \<Rightarrow> nat \<Rightarrow> nat \<Rightarrow> jstring \<Rightarrow> pm_node list option" where
  "insert_node (TextNode t) p at s = Some (TextNode (take (at - p) t @ s @ drop (at - p) t))"
| "insert_node (LeafNode b) p at s = None"
| "insert_node (BranchNode b cs) p at s = map_option (BranchNode b) (insert_nodes cs (p + 1) at s)"
| "insert_nodes [] p at s = (if at = p then Some [TextNode s] else None)"
| "insert_nodes (c # cs) p at s =
     (if at = p then Some (if isText c then TextNode (s @ node_text c) # cs else TextNode s # c # cs)
      else if at < p + nodeSize c then map_option (\<lambda>c'. c' # cs) (insert_node c p at s)
      else if isText c \<and> at = p + nodeSize c then Some (TextNode (node_text c @ s) # cs)
      else map_option (Cons c) (insert_nodes cs (p + nodeSize c) at s))"

definition text_host :: host where
  "text_host doc from to s =
     (if from \<le> to \<and> to \<le> sum_list (map nodeSize doc) then
        (case (if s = [] then Some (delete_nodes doc 0 from to)
               else insert_nodes (delete_nodes doc 0 from to) 0 from s) of
           Some d \<Rightarrow> Applied d
         | None \<Rightarrow> Raised doc)
      else Raised doc)"

section \<open>Painting the highlights\<close>

text \<open>
  The highlight effect (Editor.tsx, lines 193 to 246) first takes the marks of the previous
  pass out of the editor element and then paints the pending records. A mark carries what
  line 234 and line 235 give it: the severity and the selection flag of its class, and the
  record its click selects. The painting loop sees the element through a tree walker over
  its text nodes; a text node is modelled by its text and the highlight marks around it,
  innermost first.
\<close>

record mark =
  mark_severity :: severity
  mark_selected :: bool
  mark_feedback :: feedback_ref

record text_run =
  run_text :: jstring
  run_marks :: "mark list"











text \<open>
  \<^verbatim>\<open>range.surroundContents(highlight)\<close> on a range inside one text node: the node keeps
  the text before the range, the mark with the text of the range follows it, and a new
  text node with the text after the range follows the mark.
\<close>

definition surroundContents :: "text_run \<Rightarrow> nat \<Rightarrow> nat \<Rightarrow> mark \<Rightarrow> text_run \<times> text_run \<times> text_run" where
  "surroundContents node relativeStart relativeEnd m =
     (node\<lparr>run_text := take relativeStart (run_text node)\<rparr>,
      \<lparr>run_text = take (relativeEnd - relativeStart) (drop relativeStart (run_text node)),
       run_marks = m # run_marks node\<rparr>,
      node\<lparr>run_text := drop relativeEnd (run_text node)\<rparr>)"

text \<open>
  The \<^verbatim>\<open>while\<close> loop over the tree walker, for one record. The walker is live: after a
  mark has been put in, its next nodes are the text node inside the mark and the new text
  node after it, and the loop goes on with \<^verbatim>\<open>currentPos = nodeEnd\<close> of the node it has
  split. Whether the range operations of the \<^verbatim>\<open>try\<close> block throw is the browser's
  business: \<open>throws\<close> says it, for the node and the two offsets. \<open>start_i\<close> and
  \<open>end_i\<close> are the record's \<^verbatim>\<open>start_index\<close> and \<^verbatim>\<open>end_index\<close>. The result is the
  sequence of text nodes after the loop.
\<close>

function walk ::
  "(text_run \<Rightarrow> nat \<Rightarrow> nat \<Rightarrow> bool) \<Rightarrow> mark \<Rightarrow> int \<Rightarrow> int \<Rightarrow> text_run list \<Rightarrow> int \<Rightarrow> text_run list" where
  "walk throws m start_i end_i [] currentPos = []"
| "walk throws m start_i end_i (node # rest) currentPos =
     (let nodeLength = int (length (run_text node));
          nodeStart = currentPos;
          nodeEnd = currentPos + nodeLength
      in if nodeStart \<le> start_i \<and> start_i < nodeEnd then
           (let relativeStart = start_i - nodeStart;
                relativeEnd = min (end_i - nodeStart) nodeLength
            in if relativeStart < relativeEnd then
                 (if throws node (nat relativeStart) (nat relativeEnd) then
                    node # walk throws m start_i end_i rest nodeEnd
                  else
                    (case surroundContents node (nat relativeStart) (nat relativeEnd) m of
                       (before, inside, after) \<Rightarrow>
                         before # walk throws m start_i end_i (inside # after # rest) nodeEnd))
               else node # walk throws m start_i end_i rest nodeEnd)
         else node # walk throws m start_i end_i rest nodeEnd)"
  by pat_completeness auto
termination
  by (relation "measure (\<lambda>(throws, m, s, e, runs, p).
        length runs + (if p \<le> s then 2 * length runs + 3 else 0))")
     (auto simp: surroundContents_def)

text \<open>
  The mark of line 233 to 235, the body of \<^verbatim>\<open>pendingFeedbacks.forEach\<close> with a fresh
  tree walker and \<^verbatim>\<open>currentPos = 0\<close>, and the effect: nothing is painted in Markdown
  mode (the view is there only when the editor is), otherwise every pending record is
  painted, in the order of the feedback list, each on the nodes the one before has left.
\<close>

definition highlight_mark :: "feedback_ref option \<Rightarrow> feedback_ref \<Rightarrow> mark" where
  "highlight_mark selected fb =
     \<lparr>mark_severity = severity (snd fb),
      mark_selected = (case selected of None \<Rightarrow> False | Some s \<Rightarrow> same_object s fb),
      mark_feedback = fb\<rparr>"

definition paint ::
  "(text_run \<Rightarrow> nat \<Rightarrow> nat \<Rightarrow> bool) \<Rightarrow> feedback_ref option \<Rightarrow> feedback_ref \<Rightarrow> text_run list \<Rightarrow> text_run list" where
  "paint throws selected fb runs =
     walk throws (highlight_mark selected fb) (start_index (snd fb)) (end_index (snd fb)) runs 0"





section \<open>Notions for stating the properties\<close>

text \<open>
  The tokens of a document come in the order of their positions: \<open>ordered_from b ts\<close>
  says that no token of \<open>ts\<close> starts before \<open>b\<close> or before the end of the token before
  it, and that a virtual token has a text of length one. \<open>end_of b ts\<close> is the end of
  the last token, \<open>b\<close> when there is none.
\<close>

fun ordered_from :: "nat \<Rightarrow> token list \<Rightarrow> bool" where
  "ordered_from b [] = True"
| "ordered_from b (t # ts) =
     (b \<le> pos t \<and> (isVirtual t \<longrightarrow> length (text t) = 1) \<and>
      ordered_from (pos t + length (text t)) ts)"

fun end_of :: "nat \<Rightarrow> token list \<Rightarrow> nat" where
  "end_of b [] = b"
| "end_of b (t # ts) = end_of (pos t + length (text t)) ts"

text \<open>
  \<open>containing ts off\<close> is the token whose share of the flat text holds the offset
  \<open>off\<close>, with the tokens after it; \<open>following_real_start\<close> is the position of the first
  token after it that is not virtual: where the real content after it starts.
\<close>

fun containing :: "token list \<Rightarrow> nat \<Rightarrow> (token \<times> token list) option" where
  "containing [] off = None"
| "containing (t # ts) off =
     (if off < length (text t) then Some (t, ts) else containing ts (off - length (text t)))"


definition following_real_start :: "token list \<Rightarrow> nat \<Rightarrow> nat option" where
  "following_real_start ts off =
     (case containing ts off of
        None \<Rightarrow> None
      | Some (t, rest) \<Rightarrow>
          (case filter (\<lambda>r. \<not> isVirtual r) rest of [] \<Rightarrow> None | r # rs \<Rightarrow> Some (pos r)))"


text \<open>The end of the document: the position after its last node, the size of its content.\<close>

definition doc_end :: "pm_doc \<Rightarrow> nat" where
  "doc_end doc = sum_list (map nodeSize doc)"

text \<open>\<open>landing\<close> is the loop of \<^verbatim>\<open>getPosFromIndex\<close> followed by its fall-through value.\<close>

definition landing :: "token list \<Rightarrow> nat \<Rightarrow> nat \<Rightarrow> nat \<Rightarrow> nat" where
  "landing ts cl b x = (case scan ts cl x of Some p \<Rightarrow> p | None \<Rightarrow> end_of b ts)"


text \<open>
  The meaning of an expression, without the search order: \<open>accepts r s\<close> says that the
  whole of \<open>s\<close> matches \<open>r\<close>. \<open>word_regex ws\<close> is the expression for the words \<open>ws\<close>,
  each word unit by unit, with one or more white space between two words, and
  \<open>word_lexemes\<close> its spelling. \<open>spells ws t\<close> is the property in the words of the
  specification: \<open>t\<close> is the words \<open>ws\<close> in order, separated by one or more white space.
  A span is given by its start and its length.
\<close>

fun accepts :: "regex \<Rightarrow> jstring \<Rightarrow> bool" where
  "accepts [] s = (s = [])"
| "accepts (One a # r) [] = False"
| "accepts (One a # r) (x # xs) = (atom_ok a x \<and> accepts r xs)"
| "accepts (Plus a # r) [] = False"
| "accepts (Plus a # r) (x # xs) = (atom_ok a x \<and> (accepts (Plus a # r) xs \<or> accepts r xs))"

fun word_lexemes :: "jstring list \<Rightarrow> lexeme list" where
  "word_lexemes [] = []"
| "word_lexemes [w] = map (\<lambda>c. LAtom (Chr c)) w"
| "word_lexemes (w # v # r) = map (\<lambda>c. LAtom (Chr c)) w @ LAtom Space # LPlus # word_lexemes (v # r)"

fun word_regex :: "jstring list \<Rightarrow> regex" where
  "word_regex [] = []"
| "word_regex [w] = map (\<lambda>c. One (Chr c)) w"
| "word_regex (w # v # r) = map (\<lambda>c. One (Chr c)) w @ Plus Space # word_regex (v # r)"

fun spells :: "jstring list \<Rightarrow> jstring \<Rightarrow> bool" where
  "spells [] t = (t = [])"
| "spells [w] t = (t = w)"
| "spells (w # v # r) t =
     (\<exists>gap rest. t = w @ gap @ rest \<and> gap \<noteq> [] \<and> list_all is_ws gap \<and> spells (v # r) rest)"

definition span_matches :: "jstring list \<Rightarrow> jstring \<Rightarrow> nat \<Rightarrow> nat \<Rightarrow> bool" where
  "span_matches ws flat i n = (i + n \<le> length flat \<and> spells ws (take n (drop i flat)))"


text \<open>
  Documents for the examples: two paragraphs, a paragraph inside a quotation, and a
  paragraph that ends with a hard break.
\<close>

definition two_paragraphs :: pm_doc where
  "two_paragraphs = [BranchNode True [TextNode (js ''ab'')], BranchNode True [TextNode (js ''cd'')]]"

definition quoted_paragraph :: pm_doc where
  "quoted_paragraph = [BranchNode True [BranchNode True [TextNode (js ''ab'')]]]"

definition broken_paragraph :: pm_doc where
  "broken_paragraph = [BranchNode True [TextNode (js ''ab''), LeafNode False]]"


text \<open>
  The run that holds an offset: \<open>run_at runs p s\<close> is the index of the run whose share of
  the rendered text (the first run starting at offset \<open>p\<close>) holds \<open>s\<close>, with the offset
  where that run starts. \<open>marked_at\<close> is the sequence of runs with a mark put into run
  \<open>k\<close>, from offset \<open>s\<close> up to offset \<open>e\<close> or to the end of the run, whichever comes
  first. \<open>painted\<close> is what the property expects of the loop for one record.
\<close>

fun run_at :: "text_run list \<Rightarrow> int \<Rightarrow> int \<Rightarrow> (nat \<times> int) option" where
  "run_at [] p s = None"
| "run_at (r # rs) p s =
     (if p \<le> s \<and> s < p + int (length (run_text r)) then Some (0, p)
      else map_option (\<lambda>(k, q). (Suc k, q)) (run_at rs (p + int (length (run_text r))) s))"

definition marked_at :: "text_run list \<Rightarrow> nat \<Rightarrow> int \<Rightarrow> mark \<Rightarrow> int \<Rightarrow> int \<Rightarrow> text_run list" where
  "marked_at runs k q m s e =
     (let node = runs ! k;
          stop = min e (q + int (length (run_text node)))
      in take k runs @
         [node\<lparr>run_text := take (nat (s - q)) (run_text node)\<rparr>,
          \<lparr>run_text = take (nat (stop - s)) (drop (nat (s - q)) (run_text node)),
           run_marks = m # run_marks node\<rparr>,
          node\<lparr>run_text := drop (nat (stop - q)) (run_text node)\<rparr>] @
         drop (Suc k) runs)"

definition painted :: "(text_run \<Rightarrow> nat \<Rightarrow> nat \<Rightarrow> bool) \<Rightarrow> mark \<Rightarrow> int \<Rightarrow> int \<Rightarrow> text_run list \<Rightarrow> int \<Rightarrow> text_run list" where
  "painted throws m s e runs p =
     (case run_at runs p s of
        None \<Rightarrow> runs
      | Some (k, q) \<Rightarrow>
          (if s < min e (q + int (length (run_text (runs ! k)))) \<and>
              \<not> throws (runs ! k) (nat (s - q)) (nat (min e (q + int (length (run_text (runs ! k)))) - q))
           then marked_at runs k q m s e else runs))"

text \<open>
  \<open>occur_in_a_row ws xs\<close> says that the words \<open>ws\<close> are consecutive words of \<open>xs\<close>;
  \<open>carries fb node\<close> says that the text node lies inside a mark of the record \<open>fb\<close>.
\<close>

fun occur_in_a_row :: "jstring list \<Rightarrow> jstring list \<Rightarrow> bool" where
  "occur_in_a_row ws [] = (ws = [])"
| "occur_in_a_row ws (x # xs) = (take (length ws) (x # xs) = ws \<or> occur_in_a_row ws xs)"


text \<open>
  The state of the examples: an application with one record in its review data, and the
  records and documents of the scenarios.
\<close>

definition paris_sentence :: jstring where
  "paris_sentence = js ''Paris is obviously the best city.''"

definition paris_suggestion :: jstring where
  "paris_suggestion = js ''Paris is the capital of France.''"

definition paris_record :: "jstring \<Rightarrow> issue_type \<Rightarrow> severity \<Rightarrow> status \<Rightarrow> Feedback" where
  "paris_record remark kind sev st =
     \<lparr>original_sentence = paris_sentence, feedback = remark, suggested_text = paris_suggestion,
      issue_type = kind, severity = sev, start_index = 0, end_index = 35, status = st\<rparr>"

definition one_record_app ::
  "pm_doc \<Rightarrow> feedback_ref \<Rightarrow> feedback_ref option \<Rightarrow> feedback_ref option \<Rightarrow> app" where
  "one_record_app doc fb selected accepting =
     \<lparr>reviewData = Some \<lparr>feedbacks = [fb], overall_score = 70, summary = [], is_ready = False\<rparr>,
      selectedFeedback = selected, feedbackToAccept = accepting, editor = Some doc, alerts = []\<rparr>"

definition sky_doc :: pm_doc where
  "sky_doc = [BranchNode True [TextNode (js ''The sky is blue.'')]]"

definition sky_record :: "jstring \<Rightarrow> jstring \<Rightarrow> Feedback" where
  "sky_record sentence suggestion =
     \<lparr>original_sentence = sentence, feedback = [], suggested_text = suggestion,
      issue_type = Style, severity = Low, start_index = 0, end_index = 16, status = Pending\<rparr>"

definition refusing_host :: host where
  "refusing_host doc from to s = Raised doc"


definition overlap_record :: "int \<Rightarrow> int \<Rightarrow> Feedback" where
  "overlap_record s e =
     \<lparr>original_sentence = [], feedback = [], suggested_text = [], issue_type = Style,
      severity = Low, start_index = s, end_index = e, status = Pending\<rparr>"


definition never :: "text_run \<Rightarrow> nat \<Rightarrow> nat \<Rightarrow> bool" where
  "never node a b = False"

definition styled_runs :: "text_run list" where
  "styled_runs =
     [\<lparr>run_text = js ''Hello '', run_marks = []\<rparr>, \<lparr>run_text = js ''brave'', run_marks = []\<rparr>,
      \<lparr>run_text = js '' world'', run_marks = []\<rparr>]"

section \<open>The flat text is the concatenation of the token texts\<close>

lemma join_empty_sep: "join [] xs = concat xs"
  by (induction xs rule: induct_list012) simp_all

text \<open>
  Claim C5. For every document, the texts of the built tokens, concatenated in order, are
  the flat text that the same build hands to the search and to the position mapping.
\<close>

theorem flat_text_is_concat_of_token_texts:
  "concat (map text (tokens doc)) = fullText (tokens doc)"
  by (simp add: fullText_def join_empty_sep)


section \<open>The position of an offset\<close>

lemma end_of_append: "end_of b (xs @ ys) = end_of (end_of b xs) ys"
  by (induction xs arbitrary: b) simp_all

lemma end_of_last: "end_of b ts = (if ts = [] then b else pos (last ts) + length (text (last ts)))"
  by (induction ts arbitrary: b) simp_all

lemma end_of_mono: "b \<le> b' \<Longrightarrow> end_of b ts \<le> end_of b' ts"
  by (cases ts) simp_all

lemma ordered_from_weaken: "ordered_from b ts \<Longrightarrow> b' \<le> b \<Longrightarrow> ordered_from b' ts"
  by (cases ts) simp_all

lemma ordered_from_append:
  "ordered_from b (xs @ ys) = (ordered_from b xs \<and> ordered_from (end_of b xs) ys)"
  by (induction xs arbitrary: b) simp_all

lemma ordered_from_end: "ordered_from b ts \<Longrightarrow> b \<le> end_of b ts"
proof (induction ts arbitrary: b)
  case Nil
  show ?case by simp
next
  case (Cons t ts)
  from Cons.prems have "ordered_from (pos t + length (text t)) ts" and "b \<le> pos t" by simp_all
  with Cons.IH [of "pos t + length (text t)"] show ?case by simp
qed

lemma branch_tokens:
  "concat (map push_token (descendants_node (BranchNode b cs) p)) =
     (if b then [\<lparr>text = nl, pos = p, isVirtual = True\<rparr>] else []) @
     concat (map push_token (descendants_from cs (p + 1)))"
  by (simp add: push_token_def)

lemma tokens_ordered_aux:
  "ordered_from p (concat (map push_token (descendants_node c p))) \<and>
   end_of p (concat (map push_token (descendants_node c p))) \<le> p + nodeSize c"
  "ordered_from p (concat (map push_token (descendants_from cs p))) \<and>
   end_of p (concat (map push_token (descendants_from cs p))) \<le> p + sum_list (map nodeSize cs)"
proof (induction c p and cs p rule: descendants_node_descendants_from.induct)
  case (1 t p)
  show ?case by (simp add: push_token_def)
next
  case (2 b p)
  show ?case by (simp add: push_token_def nl_def)
next
  case (3 b cs p)
  let ?r = "concat (map push_token (descendants_from cs (p + 1)))"
  from 3 have o: "ordered_from (p + 1) ?r" and e: "end_of (p + 1) ?r \<le> p + 1 + sum_list (map nodeSize cs)"
    by simp_all
  show ?case
  proof (cases b)
    case True
    with o e show ?thesis unfolding branch_tokens by (simp add: nl_def)
  next
    case False
    have "ordered_from p ?r" using o by (rule ordered_from_weaken) simp
    moreover have "end_of p ?r \<le> end_of (p + 1) ?r" by (rule end_of_mono) simp
    ultimately show ?thesis using False e unfolding branch_tokens by simp
  qed
next
  case (4 p)
  show ?case by simp
next
  case (5 c cs p)
  let ?x = "concat (map push_token (descendants_node c p))"
  let ?y = "concat (map push_token (descendants_from cs (p + nodeSize c)))"
  from 5 have ox: "ordered_from p ?x" and ex: "end_of p ?x \<le> p + nodeSize c"
    and oy: "ordered_from (p + nodeSize c) ?y"
    and ey: "end_of (p + nodeSize c) ?y \<le> p + nodeSize c + sum_list (map nodeSize cs)"
    by simp_all
  have "ordered_from (end_of p ?x) ?y" using oy ex by (rule ordered_from_weaken)
  moreover have "end_of (end_of p ?x) ?y \<le> end_of (p + nodeSize c) ?y"
    using ex by (rule end_of_mono)
  ultimately show ?case using ox ey by (simp add: ordered_from_append end_of_append)
qed

lemma tokens_ordered: "ordered_from 0 (tokens doc)"
  using tokens_ordered_aux(2) [of 0 doc] by (simp add: tokens_def descendants_def)


lemma landing_Nil: "landing [] cl b x = b"
  by (simp add: landing_def)

lemma landing_Cons:
  "landing (t # ts) cl b x =
     (if x < cl + length (text t) then (if isVirtual t then pos t + 1 else pos t + (x - cl))
      else landing ts (cl + length (text t)) (pos t + length (text t)) x)"
  by (simp add: landing_def Let_def split: option.splits)

lemma landing_bounds:
  "ordered_from b ts \<Longrightarrow> cl \<le> x \<Longrightarrow> b \<le> landing ts cl b x \<and> landing ts cl b x \<le> end_of b ts"
proof (induction ts arbitrary: cl b)
  case Nil
  show ?case by (simp add: landing_Nil)
next
  case (Cons t ts)
  let ?n = "length (text t)"
  from Cons.prems have bp: "b \<le> pos t" and v: "isVirtual t \<longrightarrow> ?n = 1"
    and o: "ordered_from (pos t + ?n) ts" by simp_all
  have e: "pos t + ?n \<le> end_of (pos t + ?n) ts" using o by (rule ordered_from_end)
  show ?case
  proof (cases "x < cl + ?n")
    case True
    with bp v e Cons.prems(2) show ?thesis by (auto simp: landing_Cons)
  next
    case False
    then have "cl + ?n \<le> x" by simp
    from Cons.IH [OF o this] bp False show ?thesis by (simp add: landing_Cons)
  qed
qed

lemma landing_mono:
  "ordered_from b ts \<Longrightarrow> cl \<le> x \<Longrightarrow> x \<le> y \<Longrightarrow> landing ts cl b x \<le> landing ts cl b y"
proof (induction ts arbitrary: cl b)
  case Nil
  show ?case by (simp add: landing_Nil)
next
  case (Cons t ts)
  let ?n = "length (text t)"
  from Cons.prems have bp: "b \<le> pos t" and v: "isVirtual t \<longrightarrow> ?n = 1"
    and o: "ordered_from (pos t + ?n) ts" by simp_all
  show ?case
  proof (cases "y < cl + ?n")
    case True
    with Cons.prems(2,3) show ?thesis by (auto simp: landing_Cons)
  next
    case ny: False
    then have cy: "cl + ?n \<le> y" by simp
    show ?thesis
    proof (cases "x < cl + ?n")
      case True
      from landing_bounds [OF o cy] have "pos t + ?n \<le> landing ts (cl + ?n) (pos t + ?n) y" by simp
      with True ny v Cons.prems(2) show ?thesis by (auto simp: landing_Cons)
    next
      case False
      then have "cl + ?n \<le> x" by simp
      from Cons.IH [OF o this Cons.prems(3)] False ny show ?thesis
        by (simp add: landing_Cons)
    qed
  qed
qed

lemma getPosFromIndex_landing: "getPosFromIndex ts x = landing ts 0 0 x"
  by (simp add: getPosFromIndex_def landing_def end_of_last split: option.splits)

text \<open>
  Claim C6. For every document, the position that the tokens of the document give to an
  offset of the flat text does not decrease when the offset grows.
\<close>

theorem getPosFromIndex_monotone:
  "a \<le> b \<Longrightarrow> getPosFromIndex (tokens doc) a \<le> getPosFromIndex (tokens doc) b"
  unfolding getPosFromIndex_landing
  by (rule landing_mono [OF tokens_ordered]) simp_all

theorem getPosFromIndex_monotone_witness:
  "(3::nat) \<le> 4 \<and> getPosFromIndex (tokens two_paragraphs) 3 \<le> getPosFromIndex (tokens two_paragraphs) 4"
  using getPosFromIndex_monotone [of 3 4 two_paragraphs] by simp

lemma scan_virtual:
  "cl \<le> x \<Longrightarrow> containing ts (x - cl) = Some (t, rest) \<Longrightarrow> isVirtual t \<Longrightarrow>
   scan ts cl x = Some (pos t + 1)"
proof (induction ts arbitrary: cl)
  case Nil
  then show ?case by simp
next
  case (Cons u us)
  show ?case
  proof (cases "x - cl < length (text u)")
    case True
    with Cons.prems show ?thesis by (auto simp: Let_def)
  next
    case False
    with Cons.prems have c: "containing us (x - (cl + length (text u))) = Some (t, rest)"
      and le: "cl + length (text u) \<le> x" by simp_all
    from Cons.IH [OF le c Cons.prems(3)] False le show ?thesis by (simp add: Let_def)
  qed
qed

lemma scan_past_end:
  "cl + length (concat (map text ts)) \<le> x \<Longrightarrow> scan ts cl x = None"
  by (induction ts arbitrary: cl) (simp_all add: Let_def)

text \<open>
  Claim C7, as stated, fails. In a paragraph inside a quotation the offset 0 falls inside
  the virtual token of the quotation; the real content after it (the text of the
  paragraph) starts at position 2, and the offset is mapped to position 1. In a paragraph
  that ends with a hard break the flat text has length 3, and the offset 3 is mapped to
  position 3, the end of the text, with the hard break still after it; the document ends
  at position 5.
\<close>

theorem synthetic_offset_counterexample:
  "containing (tokens quoted_paragraph) 0 =
     Some (\<lparr>text = nl, pos = 0, isVirtual = True\<rparr>,
           [\<lparr>text = nl, pos = 1, isVirtual = True\<rparr>, \<lparr>text = js ''ab'', pos = 2, isVirtual = False\<rparr>]) \<and>
   following_real_start (tokens quoted_paragraph) 0 = Some 2 \<and>
   getPosFromIndex (tokens quoted_paragraph) 0 = 1 \<and>
   following_real_start (tokens quoted_paragraph) 0 \<noteq> Some (getPosFromIndex (tokens quoted_paragraph) 0) \<and>
   length (fullText (tokens broken_paragraph)) = 3 \<and>
   getPosFromIndex (tokens broken_paragraph) 3 = 3 \<and>
   doc_end broken_paragraph = 5 \<and>
   getPosFromIndex (tokens broken_paragraph) 3 \<noteq> doc_end broken_paragraph"
  by (simp add: quoted_paragraph_def broken_paragraph_def tokens_def descendants_def push_token_def
      following_real_start_def getPosFromIndex_def fullText_def doc_end_def nl_def js_def)

text \<open>
  Claim C7, amended. For every token sequence, an offset inside a virtual token is mapped
  to the position of that token plus one, never to the position of the token itself; this
  is the start of the real content after it exactly when the first real token after the
  virtual token starts at that position. An offset at or beyond the length of the flat
  text is mapped to the end of the last token (its position plus the length of its text),
  and to 0 when there is no token.
\<close>

theorem synthetic_offset_maps_past_block_boundary:
  "(\<forall>t rest. containing ts off = Some (t, rest) \<and> isVirtual t \<longrightarrow>
      getPosFromIndex ts off = pos t + 1 \<and>
      getPosFromIndex ts off \<noteq> pos t \<and>
      (following_real_start ts off = Some (getPosFromIndex ts off)) =
        (\<exists>r rs. filter (\<lambda>r. \<not> isVirtual r) rest = r # rs \<and> pos r = pos t + 1)) \<and>
   (length (fullText ts) \<le> off' \<longrightarrow>
      getPosFromIndex ts off' = (if ts = [] then 0 else pos (last ts) + length (text (last ts))))"
proof (intro conjI allI impI)
  fix t rest
  assume a: "containing ts off = Some (t, rest) \<and> isVirtual t"
  then have "scan ts 0 off = Some (pos t + 1)" using scan_virtual [of 0 off ts t rest] by simp
  then show g: "getPosFromIndex ts off = pos t + 1" by (simp add: getPosFromIndex_def)
  then show "getPosFromIndex ts off \<noteq> pos t" by simp
  show "(following_real_start ts off = Some (getPosFromIndex ts off)) =
        (\<exists>r rs. filter (\<lambda>r. \<not> isVirtual r) rest = r # rs \<and> pos r = pos t + 1)"
    using a g by (cases "filter (\<lambda>r. \<not> isVirtual r) rest") (simp_all add: following_real_start_def)
next
  assume "length (fullText ts) \<le> off'"
  then have "scan ts 0 off' = None" using scan_past_end [of 0 ts off']
    by (simp add: fullText_def join_empty_sep)
  then show "getPosFromIndex ts off' = (if ts = [] then 0 else pos (last ts) + length (text (last ts)))"
    by (simp add: getPosFromIndex_def)
qed

theorem synthetic_offset_maps_past_block_boundary_witness:
  "containing (tokens two_paragraphs) 3 =
     Some (\<lparr>text = nl, pos = 4, isVirtual = True\<rparr>, [\<lparr>text = js ''cd'', pos = 5, isVirtual = False\<rparr>]) \<and>
   getPosFromIndex (tokens two_paragraphs) 3 = 5 \<and>
   following_real_start (tokens two_paragraphs) 3 = Some 5 \<and>
   containing (tokens quoted_paragraph) 0 =
     Some (\<lparr>text = nl, pos = 0, isVirtual = True\<rparr>,
           [\<lparr>text = nl, pos = 1, isVirtual = True\<rparr>, \<lparr>text = js ''ab'', pos = 2, isVirtual = False\<rparr>]) \<and>
   getPosFromIndex (tokens quoted_paragraph) 0 = 1 \<and>
   following_real_start (tokens quoted_paragraph) 0 \<noteq> Some (getPosFromIndex (tokens quoted_paragraph) 0) \<and>
   length (fullText (tokens two_paragraphs)) \<le> 6 \<and>
   getPosFromIndex (tokens two_paragraphs) 6 = 7"
  using synthetic_offset_maps_past_block_boundary [of "tokens two_paragraphs" 3 6] synthetic_offset_maps_past_block_boundary [of "tokens quoted_paragraph" 0 0]
  by (simp add: two_paragraphs_def quoted_paragraph_def tokens_def descendants_def push_token_def
      following_real_start_def getPosFromIndex_def fullText_def nl_def js_def)

section \<open>Properties of the locator\<close>

lemma special_backslash: "special backslash"
  by (simp add: special_def)

lemma special_plus: "special plus_sign"
  by (simp add: special_def plus_sign_def js_def)

lemma not_special_s: "\<not> special letter_s"
  by (simp add: special_def letter_s_def js_def backslash_def)

lemma lex_plain:
  "\<not> special c \<Longrightarrow> lex (c # rest) = map_option (Cons (LAtom (Chr c))) (lex rest)"
  using special_backslash special_plus by (cases rest) auto

lemma lex_escaped:
  "special c \<Longrightarrow> lex (backslash # c # rest) = map_option (Cons (LAtom (Chr c))) (lex rest)"
  using not_special_s by auto

lemma lex_escapeRegExp:
  "lex (escapeRegExp w @ rest) = map_option (\<lambda>ls. map (\<lambda>c. LAtom (Chr c)) w @ ls) (lex rest)"
proof (induction w)
  case Nil
  show ?case by (simp add: escapeRegExp_def option.map_ident)
next
  case (Cons c w)
  have e: "escapeRegExp (c # w) = (if special c then [backslash, c] else [c]) @ escapeRegExp w"
    by (simp add: escapeRegExp_def)
  show ?case
  proof (cases "special c")
    case True
    then show ?thesis using Cons.IH by (simp add: e lex_escaped option.map_comp comp_def del: lex.simps)
  next
    case False
    then show ?thesis using Cons.IH by (simp add: e lex_plain option.map_comp comp_def del: lex.simps)
  qed
qed

lemma lex_ws_plus:
  "lex (ws_plus @ rest) = map_option (\<lambda>ls. LAtom Space # LPlus # ls) (lex rest)"
proof -
  have "lex (plus_sign # rest) = map_option (Cons LPlus) (lex rest)"
    using special_backslash special_plus by (cases rest) (auto simp: backslash_def plus_sign_def)
  then show ?thesis
    by (simp add: ws_plus_def option.map_comp comp_def del: lex.simps) (simp add: option.map_comp comp_def)
qed

lemma lex_pattern: "lex (join ws_plus (map escapeRegExp ws)) = Some (word_lexemes ws)"
proof (induction ws rule: induct_list012)
  case 1
  show ?case by simp
next
  case (2 w)
  show ?case using lex_escapeRegExp [of w "[]"] by simp
next
  case (3 w v r)
  then show ?case by (simp add: lex_escapeRegExp lex_ws_plus del: lex.simps)
qed

lemma quantify_chars:
  "ls = [] \<or> (\<exists>a r. ls = LAtom a # r) \<Longrightarrow>
   quantify (map (\<lambda>c. LAtom (Chr c)) w @ ls) = map_option (\<lambda>r. map (\<lambda>c. One (Chr c)) w @ r) (quantify ls)"
proof (induction w)
  case Nil
  show ?case by (simp add: option.map_ident)
next
  case (Cons c w)
  have "quantify (LAtom (Chr c) # map (\<lambda>c. LAtom (Chr c)) w @ ls) =
        map_option (Cons (One (Chr c))) (quantify (map (\<lambda>c. LAtom (Chr c)) w @ ls))"
    using Cons.prems by (cases w) auto
  then show ?case using Cons by (simp add: option.map_comp comp_def)
qed

lemma quantify_words: "quantify (word_lexemes ws) = Some (word_regex ws)"
proof (induction ws rule: induct_list012)
  case 1
  show ?case by simp
next
  case (2 w)
  show ?case using quantify_chars [of "[]" w] by simp
next
  case (3 w v r)
  have "quantify (map (\<lambda>c. LAtom (Chr c)) w @ LAtom Space # LPlus # word_lexemes (v # r)) =
        map_option (\<lambda>r. map (\<lambda>c. One (Chr c)) w @ r) (quantify (LAtom Space # LPlus # word_lexemes (v # r)))"
    by (rule quantify_chars) simp
  with 3 show ?case by simp
qed

lemma RegExp_pattern: "RegExp (join ws_plus (map escapeRegExp ws)) = Some (word_regex ws)"
  by (simp add: RegExp_def lex_pattern quantify_words)

lemma accepts_chars:
  "accepts (map (\<lambda>c. One (Chr c)) w @ r) s = (\<exists>t. s = w @ t \<and> accepts r t)"
proof (induction w arbitrary: s)
  case Nil
  show ?case by simp
next
  case (Cons c w)
  then show ?case by (cases s) auto
qed

lemma accepts_space_plus:
  "accepts (Plus Space # r) s =
     (\<exists>gap t. s = gap @ t \<and> gap \<noteq> [] \<and> list_all is_ws gap \<and> accepts r t)"
proof (induction s)
  case Nil
  show ?case by simp
next
  case (Cons x xs)
  show ?case
  proof
    assume "accepts (Plus Space # r) (x # xs)"
    then have x: "is_ws x" and d: "accepts (Plus Space # r) xs \<or> accepts r xs" by simp_all
    from d show "\<exists>gap t. x # xs = gap @ t \<and> gap \<noteq> [] \<and> list_all is_ws gap \<and> accepts r t"
    proof
      assume "accepts (Plus Space # r) xs"
      with Cons.IH obtain gap t where "xs = gap @ t" "list_all is_ws gap" "accepts r t" by auto
      with x have "x # xs = (x # gap) @ t \<and> x # gap \<noteq> [] \<and> list_all is_ws (x # gap) \<and> accepts r t"
        by simp
      then show ?thesis by blast
    next
      assume "accepts r xs"
      with x have "x # xs = [x] @ xs \<and> [x] \<noteq> [] \<and> list_all is_ws [x] \<and> accepts r xs" by simp
      then show ?thesis by blast
    qed
  next
    assume "\<exists>gap t. x # xs = gap @ t \<and> gap \<noteq> [] \<and> list_all is_ws gap \<and> accepts r t"
    then obtain gap t where g: "x # xs = gap @ t" "gap \<noteq> []" "list_all is_ws gap" "accepts r t"
      by blast
    then obtain g' where gap: "gap = x # g'" by (cases gap) auto
    with g have xs: "xs = g' @ t" and x: "is_ws x" and g': "list_all is_ws g'" by simp_all
    show "accepts (Plus Space # r) (x # xs)"
    proof (cases "g' = []")
      case True
      with xs g(4) x show ?thesis by simp
    next
      case False
      with xs g' g(4) Cons.IH have "accepts (Plus Space # r) xs" by blast
      with x show ?thesis by simp
    qed
  qed
qed

lemma accepts_word_regex: "accepts (word_regex ws) t = spells ws t"
proof (induction ws arbitrary: t rule: induct_list012)
  case 1
  show ?case by simp
next
  case (2 w)
  show ?case using accepts_chars [of w "[]" t] by auto
next
  case (3 w v r)
  show ?case by (simp add: accepts_chars accepts_space_plus 3 del: accepts.simps) blast
qed

lemma match_here_sound:
  "match_here r s = Some n \<Longrightarrow> n \<le> length s \<and> accepts r (take n s)"
proof (induction r s arbitrary: n rule: match_here.induct)
  case (1 s)
  then show ?case by simp
next
  case (2 a r)
  then show ?case by simp
next
  case (3 a r x xs)
  then show ?case by (auto split: if_splits)
next
  case (4 a r)
  then show ?case by simp
next
  case (5 a r x xs)
  then show ?case by (auto split: if_splits option.splits)
qed

lemma match_here_complete:
  "accepts r p \<Longrightarrow> \<exists>n. match_here r (p @ t) = Some n"
proof (induction r p rule: accepts.induct)
  case (1 s)
  then show ?case by simp
next
  case (2 a r)
  then show ?case by simp
next
  case (3 a r x xs)
  then show ?case by auto
next
  case (4 a r)
  then show ?case by simp
next
  case (5 a r x xs)
  then show ?case by (auto split: option.splits)
qed

lemma exec_from_Some:
  "exec_from r s i = Some (j, n) \<Longrightarrow>
   \<exists>k. j = i + k \<and> k \<le> length s \<and> match_here r (drop k s) = Some n \<and>
       (\<forall>k'<k. match_here r (drop k' s) = None)"
proof (induction s arbitrary: i)
  case Nil
  then show ?case by (auto split: option.splits)
next
  case (Cons x xs)
  show ?case
  proof (cases "match_here r (x # xs)")
    case (Some m)
    with Cons.prems have "j = i + 0 \<and> 0 \<le> length (x # xs) \<and> match_here r (drop 0 (x # xs)) = Some n \<and>
       (\<forall>k'<0. match_here r (drop k' (x # xs)) = None)" by simp
    then show ?thesis by blast
  next
    case None
    with Cons.prems have "exec_from r xs (Suc i) = Some (j, n)" by simp
    from Cons.IH [OF this] obtain k where k: "j = Suc i + k" "k \<le> length xs"
      "match_here r (drop k xs) = Some n" "\<forall>k'<k. match_here r (drop k' xs) = None" by blast
    have "\<forall>k'<Suc k. match_here r (drop k' (x # xs)) = None"
    proof (intro allI impI)
      fix k' assume "k' < Suc k"
      then show "match_here r (drop k' (x # xs)) = None" using None k(4) by (cases k') simp_all
    qed
    with k have "j = i + Suc k \<and> Suc k \<le> length (x # xs) \<and> match_here r (drop (Suc k) (x # xs)) = Some n \<and>
       (\<forall>k'<Suc k. match_here r (drop k' (x # xs)) = None)" by simp
    then show ?thesis by blast
  qed
qed

lemma exec_from_None:
  "exec_from r s i = None \<Longrightarrow> k \<le> length s \<Longrightarrow> match_here r (drop k s) = None"
proof (induction s arbitrary: i k)
  case Nil
  then show ?case by (auto split: option.splits)
next
  case (Cons x xs)
  from Cons.prems(1) have h: "match_here r (x # xs) = None" and t: "exec_from r xs (Suc i) = None"
    by (auto split: option.splits)
  show ?case
  proof (cases k)
    case 0
    with h show ?thesis by simp
  next
    case (Suc k')
    with Cons.prems(2) Cons.IH [OF t, of k'] show ?thesis by simp
  qed
qed

lemma no_match_no_span:
  "match_here (word_regex ws) (drop i flat) = None \<Longrightarrow> \<not> span_matches ws flat i n"
proof
  assume m: "match_here (word_regex ws) (drop i flat) = None" and s: "span_matches ws flat i n"
  from s have "accepts (word_regex ws) (take n (drop i flat))"
    by (simp add: span_matches_def accepts_word_regex)
  from match_here_complete [OF this, of "drop n (drop i flat)"]
  have "\<exists>m. match_here (word_regex ws) (drop i flat) = Some m"
    by (simp only: append_take_drop_id)
  with m show False by simp
qed

lemma match_span:
  "match_here (word_regex ws) (drop i flat) = Some n \<Longrightarrow> i \<le> length flat \<Longrightarrow> span_matches ws flat i n"
  using match_here_sound [of "word_regex ws" "drop i flat" n]
  by (auto simp: span_matches_def accepts_word_regex)

lemma locate_word_regex:
  "locate flat sentence =
     (case exec (word_regex (split_ws (trim sentence))) flat of
        Some (index, len) \<Rightarrow> Found index len
      | None \<Rightarrow> NotFound)"
  by (simp add: locate_def pattern_of_def RegExp_pattern)

lemma locate_Found:
  assumes "locate flat sentence = Found i n"
  shows "span_matches (split_ws (trim sentence)) flat i n"
    and "j < i \<Longrightarrow> \<not> span_matches (split_ws (trim sentence)) flat j m"
proof -
  let ?ws = "split_ws (trim sentence)"
  from assms have "exec_from (word_regex ?ws) flat 0 = Some (i, n)"
    by (auto simp: locate_word_regex exec_def split: option.splits)
  from exec_from_Some [OF this]
  have i: "i \<le> length flat" and m: "match_here (word_regex ?ws) (drop i flat) = Some n"
    and e: "\<forall>k'<i. match_here (word_regex ?ws) (drop k' flat) = None"
    by auto
  from m i show "span_matches ?ws flat i n" by (rule match_span)
  assume "j < i"
  with e have "match_here (word_regex ?ws) (drop j flat) = None" by simp
  then show "\<not> span_matches ?ws flat j m" by (rule no_match_no_span)
qed

lemma locate_NotFound:
  assumes "locate flat sentence = NotFound"
  shows "\<not> span_matches (split_ws (trim sentence)) flat i n"
proof (cases "i \<le> length flat")
  case True
  from assms have "exec_from (word_regex (split_ws (trim sentence))) flat 0 = None"
    by (auto simp: locate_word_regex exec_def split: option.splits)
  from exec_from_None [OF this True] show ?thesis by (rule no_match_no_span)
next
  case False
  then show ?thesis by (simp add: span_matches_def)
qed

lemma locate_not_rejected: "locate flat sentence \<noteq> PatternRejected"
  by (simp add: locate_word_regex split: option.splits)

text \<open>
  Claim C2, as stated, fails: the locator does not answer \<open>NotFound\<close> whenever a word
  differs. The words of the sentence "The sky is blue" are not consecutive words of the
  flat text "The sky is bluest.", whose last word is another one, and the locator finds
  the span 0 to 15; the words of "he sky" are not consecutive words of the flat text of
  the paragraph "The sky is blue.", and the locator finds them inside "The sky".
\<close>

theorem partial_word_is_found:
  "split_ws (trim (js ''The sky is bluest.'')) = [js ''The'', js ''sky'', js ''is'', js ''bluest.''] \<and>
   split_ws (trim (js ''The sky is blue'')) = [js ''The'', js ''sky'', js ''is'', js ''blue''] \<and>
   \<not> occur_in_a_row (split_ws (trim (js ''The sky is blue''))) (split_ws (trim (js ''The sky is bluest.''))) \<and>
   locate (js ''The sky is bluest.'') (js ''The sky is blue'') = Found 0 15 \<and>
   \<not> occur_in_a_row (split_ws (trim (js ''he sky''))) (split_ws (trim (nl @ js ''The sky is blue.''))) \<and>
   locate (nl @ js ''The sky is blue.'') (js ''he sky'') = Found 2 6"
  by code_simp

text \<open>
  Claim C2, amended. For every flat text and every sentence, the constructor accepts the
  pattern, and the locator returns a span of the flat text that spells the words of the
  trimmed sentence, split on white space, each word taken literally and one or more white
  space between two words, such that no span that spells them starts before it; it returns
  \<open>NotFound\<close> exactly when no span of the flat text spells them. The span need not start
  or end where a word of the flat text does: the sentence "The sky is blue" is found in
  "The sky is bluest.". For the flat text "The sky is blue." and the sentence "The sky is
  green." the locator returns \<open>NotFound\<close>; for the flat text "Climate   change", line
  break, "is important." and the sentence "Climate change is important." it returns the
  span of the whole flat text.
\<close>

theorem locate_first_word_sequence_match:
  "(case locate flat sentence of
      Found i n \<Rightarrow>
        span_matches (split_ws (trim sentence)) flat i n \<and>
        (\<forall>j m. j < i \<longrightarrow> \<not> span_matches (split_ws (trim sentence)) flat j m)
    | NotFound \<Rightarrow> (\<forall>i n. \<not> span_matches (split_ws (trim sentence)) flat i n)
    | PatternRejected \<Rightarrow> False) \<and>
   locate (js ''The sky is blue.'') (js ''The sky is green.'') = NotFound \<and>
   locate (js ''Climate   change'' @ nl @ js ''is important.'') (js ''Climate change is important.'') =
     Found 0 (length (js ''Climate   change'' @ nl @ js ''is important.'')) \<and>
   locate (js ''The sky is bluest.'') (js ''The sky is blue'') = Found 0 15"
proof (intro conjI)
  show "case locate flat sentence of
      Found i n \<Rightarrow>
        span_matches (split_ws (trim sentence)) flat i n \<and>
        (\<forall>j m. j < i \<longrightarrow> \<not> span_matches (split_ws (trim sentence)) flat j m)
    | NotFound \<Rightarrow> (\<forall>i n. \<not> span_matches (split_ws (trim sentence)) flat i n)
    | PatternRejected \<Rightarrow> False"
  proof (cases "locate flat sentence")
    case (Found i n)
    with locate_Found [OF Found] show ?thesis by simp
  next
    case NotFound
    with locate_NotFound [OF NotFound] show ?thesis by simp
  next
    case PatternRejected
    with locate_not_rejected [of flat sentence] show ?thesis by simp
  qed
  show "locate (js ''The sky is blue.'') (js ''The sky is green.'') = NotFound"
    by code_simp
  show "locate (js ''Climate   change'' @ nl @ js ''is important.'') (js ''Climate change is important.'') =
     Found 0 (length (js ''Climate   change'' @ nl @ js ''is important.''))"
    by code_simp
  show "locate (js ''The sky is bluest.'') (js ''The sky is blue'') = Found 0 15"
    by code_simp
qed

theorem locate_first_word_sequence_match_witness:
  "locate (js ''It is. The  sky is blue.'') (js '' The sky  '') = Found 7 8 \<and>
   span_matches [js ''The'', js ''sky''] (js ''It is. The  sky is blue.'') 7 8 \<and>
   \<not> span_matches [js ''The'', js ''sky''] (js ''It is. The  sky is blue.'') 3 8 \<and>
   locate (js ''The sky is blue.'') (js ''The sea'') = NotFound \<and>
   \<not> span_matches [js ''The'', js ''sea''] (js ''The sky is blue.'') 0 7"
proof -
  have a: "locate (js ''It is. The  sky is blue.'') (js '' The sky  '') = Found 7 8" by code_simp
  have b: "split_ws (trim (js '' The sky  '')) = [js ''The'', js ''sky'']" by code_simp
  have c: "locate (js ''The sky is blue.'') (js ''The sea'') = NotFound" by code_simp
  have d: "split_ws (trim (js ''The sea'')) = [js ''The'', js ''sea'']" by code_simp
  from locate_first_word_sequence_match
      [where flat = "js ''It is. The  sky is blue.''" and sentence = "js '' The sky  ''"]
    locate_first_word_sequence_match
      [where flat = "js ''The sky is blue.''" and sentence = "js ''The sea''"]
  show ?thesis by (simp add: a b c d)
qed

section \<open>Properties of the acceptance\<close>

lemma paris_bare_tokens:
  "tokens [TextNode t] = [\<lparr>text = t, pos = 0, isVirtual = False\<rparr>]"
  by (simp add: tokens_def descendants_def push_token_def)

lemma paris_paragraph_tokens:
  "tokens [BranchNode True [TextNode t]] =
     [\<lparr>text = nl, pos = 0, isVirtual = True\<rparr>, \<lparr>text = t, pos = 1, isVirtual = False\<rparr>]"
  by (simp add: tokens_def descendants_def push_token_def)

lemma paris_located_bare: "locate paris_sentence paris_sentence = Found 0 33"
  by code_simp

lemma paris_located_paragraph: "locate (nl @ paris_sentence) paris_sentence = Found 1 33"
  by code_simp

lemma nl_length: "length nl = 1"
  by (simp add: nl_def)

lemma paris_length: "length paris_sentence = 33"
  by (simp add: paris_sentence_def js_def)

lemma paris_accept_bare:
  "host [TextNode paris_sentence] 0 33 paris_suggestion = Applied d \<Longrightarrow>
   accept_feedback host [TextNode paris_sentence] (k, paris_record remark kind sev Pending) =
     Inr \<lparr>doc_after = d, alerted = None, completed = Some (k, paris_record remark kind sev Pending)\<rparr>"
  by (simp add: accept_feedback_def paris_bare_tokens fullText_def paris_located_bare
      getPosFromIndex_def paris_length paris_record_def)

lemma paris_accept_paragraph:
  "host [BranchNode True [TextNode paris_sentence]] 1 34 paris_suggestion = Applied d \<Longrightarrow>
   accept_feedback host [BranchNode True [TextNode paris_sentence]] (k, paris_record remark kind sev Pending) =
     Inr \<lparr>doc_after = d, alerted = None, completed = Some (k, paris_record remark kind sev Pending)\<rparr>"
  by (simp add: accept_feedback_def paris_paragraph_tokens fullText_def paris_located_paragraph
      getPosFromIndex_def paris_length paris_record_def nl_length)

lemma paris_flip:
  "accept_feedback host doc (k, paris_record remark kind sev Pending) =
     Inr \<lparr>doc_after = d, alerted = None, completed = Some (k, paris_record remark kind sev Pending)\<rparr> \<Longrightarrow>
   accept_effect host (handleAcceptFeedback (k, paris_record remark kind sev Pending)
      (one_record_app doc (k, paris_record remark kind sev Pending) selected None)) =
     Inr (one_record_app d (k, paris_record remark kind sev Accepted) None None)"
  by (simp add: accept_effect_def handleAcceptFeedback_def one_record_app_def onFeedbackAccepted_def
      same_object_def paris_record_def)

text \<open>
  Claim C1. The document is the sentence "Paris is obviously the best city.", as a bare
  text run (its flat text is the sentence) or as the one paragraph of the document (its
  flat text is the sentence after the virtual newline of the paragraph); the record is
  pending, with that sentence, the suggestion "Paris is the capital of France.", start
  index 0 and end index 35. The acceptance asks the host to replace exactly the positions
  of the sentence by the suggestion; when the host does so, the application ends with the
  suggestion as the text of the document, the record accepted, and no record left to
  accept or selected.
\<close>

theorem accept_replaces_sentence_and_flips_status:
  assumes "host [TextNode paris_sentence] 0 33 paris_suggestion = Applied [TextNode paris_suggestion]"
    and "host [BranchNode True [TextNode paris_sentence]] 1 34 paris_suggestion =
           Applied [BranchNode True [TextNode paris_suggestion]]"
  shows "fullText (tokens [TextNode paris_sentence]) = paris_sentence \<and>
     accept_effect host (handleAcceptFeedback (k, paris_record remark kind sev Pending)
        (one_record_app [TextNode paris_sentence] (k, paris_record remark kind sev Pending) selected None)) =
       Inr (one_record_app [TextNode paris_suggestion] (k, paris_record remark kind sev Accepted) None None) \<and>
     fullText (tokens [TextNode paris_suggestion]) = paris_suggestion \<and>
     fullText (tokens [BranchNode True [TextNode paris_sentence]]) = nl @ paris_sentence \<and>
     accept_effect host (handleAcceptFeedback (k, paris_record remark kind sev Pending)
        (one_record_app [BranchNode True [TextNode paris_sentence]]
           (k, paris_record remark kind sev Pending) selected None)) =
       Inr (one_record_app [BranchNode True [TextNode paris_suggestion]]
        (k, paris_record remark kind sev Accepted) None None) \<and>
     fullText (tokens [BranchNode True [TextNode paris_suggestion]]) = nl @ paris_suggestion"
  using paris_flip [OF paris_accept_bare [where host = host, OF assms(1)]]
    paris_flip [OF paris_accept_paragraph [where host = host, OF assms(2)]]
  by (simp add: paris_bare_tokens paris_paragraph_tokens fullText_def)

lemma text_host_bare:
  "text_host [TextNode paris_sentence] 0 33 paris_suggestion = Applied [TextNode paris_suggestion]"
  by code_simp

lemma text_host_paragraph:
  "text_host [BranchNode True [TextNode paris_sentence]] 1 34 paris_suggestion =
     Applied [BranchNode True [TextNode paris_suggestion]]"
  by code_simp

theorem accept_replaces_sentence_and_flips_status_witness:
  "text_host [TextNode paris_sentence] 0 33 paris_suggestion = Applied [TextNode paris_suggestion] \<and>
   text_host [BranchNode True [TextNode paris_sentence]] 1 34 paris_suggestion =
     Applied [BranchNode True [TextNode paris_suggestion]] \<and>
   accept_effect text_host (handleAcceptFeedback (0, paris_record [] Npov High Pending)
      (one_record_app [BranchNode True [TextNode paris_sentence]]
         (0, paris_record [] Npov High Pending) None None)) =
     Inr (one_record_app [BranchNode True [TextNode paris_suggestion]]
        (0, paris_record [] Npov High Accepted) None None)"
  using accept_replaces_sentence_and_flips_status [where host = text_host and k = 0
      and remark = "[]" and kind = Npov and sev = High and selected = None,
      OF text_host_bare text_host_paragraph]
    text_host_bare text_host_paragraph
  by simp

text \<open>
  Claim C3. Whenever the locator finds no match for the sentence of the record in the flat
  text of the document, the acceptance leaves the document as it is, hands no record to
  \<^verbatim>\<open>onAcceptComplete\<close> and shows the alert; the application keeps its review data, so
  the status of the record stays what it was.
\<close>

theorem no_match_leaves_document_and_record:
  assumes "editor st = Some doc" and "feedbackToAccept st = Some fb"
    and "locate (fullText (tokens doc)) (original_sentence (snd fb)) = NotFound"
  shows "accept_feedback host doc fb =
           Inr \<lparr>doc_after = doc, alerted = Some CouldNotFindSentence, completed = None\<rparr> \<and>
         accept_effect host st = Inr (st\<lparr>alerts := alerts st @ [CouldNotFindSentence]\<rparr>) \<and>
         editor (st\<lparr>alerts := alerts st @ [CouldNotFindSentence]\<rparr>) = Some doc \<and>
         reviewData (st\<lparr>alerts := alerts st @ [CouldNotFindSentence]\<rparr>) = reviewData st"
proof -
  have a: "accept_feedback host doc fb =
           Inr \<lparr>doc_after = doc, alerted = Some CouldNotFindSentence, completed = None\<rparr>"
    using assms(3) by (simp add: accept_feedback_def)
  have "st\<lparr>editor := Some doc\<rparr> = st" using assms(1) by simp
  then have "accept_effect host st = Inr (st\<lparr>alerts := alerts st @ [CouldNotFindSentence]\<rparr>)"
    using assms(1,2) a by (simp add: accept_effect_def)
  with a assms(1) show ?thesis by simp
qed

lemma sky_not_found:
  "locate (fullText (tokens sky_doc)) (js ''The sky is green.'') = NotFound"
  by code_simp

theorem no_match_leaves_document_and_record_witness:
  "locate (fullText (tokens sky_doc)) (js ''The sky is green.'') = NotFound \<and>
   accept_effect text_host
     (one_record_app sky_doc (3, sky_record (js ''The sky is green.'') (js ''The sea is green.''))
        None (Some (3, sky_record (js ''The sky is green.'') (js ''The sea is green.'')))) =
   Inr ((one_record_app sky_doc (3, sky_record (js ''The sky is green.'') (js ''The sea is green.''))
        None (Some (3, sky_record (js ''The sky is green.'') (js ''The sea is green.''))))
        \<lparr>alerts := [CouldNotFindSentence]\<rparr>)"
  using no_match_leaves_document_and_record [where host = text_host and doc = sky_doc
      and fb = "(3, sky_record (js ''The sky is green.'') (js ''The sea is green.''))"
      and st = "one_record_app sky_doc (3, sky_record (js ''The sky is green.'') (js ''The sea is green.''))
        None (Some (3, sky_record (js ''The sky is green.'') (js ''The sea is green.'')))"]
    sky_not_found
  by (simp add: one_record_app_def sky_record_def)

text \<open>
  Claim C8. Whenever the span is found and the edit of the host raises, the acceptance
  still returns: it shows the alert of the \<^verbatim>\<open>catch\<close> branch and hands no record to
  \<^verbatim>\<open>onAcceptComplete\<close>; the application keeps its review data and the record to accept,
  so the status of the record stays what it was.
\<close>

theorem raised_edit_is_caught:
  assumes "editor st = Some doc" and "feedbackToAccept st = Some fb"
    and "locate (fullText (tokens doc)) (original_sentence (snd fb)) = Found i n"
    and "host doc (getPosFromIndex (tokens doc) i) (getPosFromIndex (tokens doc) (i + n))
           (suggested_text (snd fb)) = Raised d"
  shows "accept_feedback host doc fb =
           Inr \<lparr>doc_after = d, alerted = Some ErrorApplyingSuggestion, completed = None\<rparr> \<and>
         accept_effect host st =
           Inr (st\<lparr>editor := Some d, alerts := alerts st @ [ErrorApplyingSuggestion]\<rparr>) \<and>
         reviewData (st\<lparr>editor := Some d, alerts := alerts st @ [ErrorApplyingSuggestion]\<rparr>) =
           reviewData st \<and>
         feedbackToAccept (st\<lparr>editor := Some d, alerts := alerts st @ [ErrorApplyingSuggestion]\<rparr>) =
           Some fb"
proof -
  have a: "accept_feedback host doc fb =
           Inr \<lparr>doc_after = d, alerted = Some ErrorApplyingSuggestion, completed = None\<rparr>"
    using assms(3,4) by (simp add: accept_feedback_def)
  then show ?thesis using assms(1,2) by (simp add: accept_effect_def)
qed

lemma sky_found:
  "locate (fullText (tokens sky_doc)) (js ''sky  is'') = Found 5 6"
  by code_simp

theorem raised_edit_is_caught_witness:
  "locate (fullText (tokens sky_doc)) (js ''sky  is'') = Found 5 6 \<and>
   refusing_host sky_doc (getPosFromIndex (tokens sky_doc) 5) (getPosFromIndex (tokens sky_doc) (5 + 6))
     (js ''sea is'') = Raised sky_doc \<and>
   accept_effect refusing_host
     (one_record_app sky_doc (3, sky_record (js ''sky  is'') (js ''sea is''))
        None (Some (3, sky_record (js ''sky  is'') (js ''sea is'')))) =
   Inr ((one_record_app sky_doc (3, sky_record (js ''sky  is'') (js ''sea is''))
        None (Some (3, sky_record (js ''sky  is'') (js ''sea is''))))
        \<lparr>alerts := [ErrorApplyingSuggestion]\<rparr>)"
  using raised_edit_is_caught [where host = refusing_host and doc = sky_doc and d = sky_doc
      and i = 5 and n = 6
      and fb = "(3, sky_record (js ''sky  is'') (js ''sea is''))"
      and st = "one_record_app sky_doc (3, sky_record (js ''sky  is'') (js ''sea is''))
        None (Some (3, sky_record (js ''sky  is'') (js ''sea is'')))"]
    sky_found
  by (simp add: one_record_app_def sky_record_def refusing_host_def)












section \<open>Properties of the painting loop\<close>

lemma walk_past: "s < p \<Longrightarrow> walk throws m s e runs p = runs"
  by (induction runs arbitrary: p) (simp_all add: Let_def)


lemma walk_paint:
  assumes "p \<le> s" and "s < p + int (length (run_text node))"
    and "s - p < min (e - p) (int (length (run_text node)))"
    and "\<not> throws node (nat (s - p)) (nat (min (e - p) (int (length (run_text node)))))"
  shows "walk throws m s e (node # rest) p =
     node\<lparr>run_text := take (nat (s - p)) (run_text node)\<rparr> #
     \<lparr>run_text = take (nat (min (e - p) (int (length (run_text node)))) - nat (s - p))
         (drop (nat (s - p)) (run_text node)),
      run_marks = m # run_marks node\<rparr> #
     node\<lparr>run_text := drop (nat (min (e - p) (int (length (run_text node))))) (run_text node)\<rparr> # rest"
  using assms
  by (subst walk.simps) (simp add: Let_def surroundContents_def walk_past del: walk.simps)

lemma walk_skip:
  assumes "\<not> (p \<le> s \<and> s < p + int (length (run_text node)) \<and>
       s - p < min (e - p) (int (length (run_text node))) \<and>
       \<not> throws node (nat (s - p)) (nat (min (e - p) (int (length (run_text node))))))"
  shows "walk throws m s e (node # rest) p =
     node # walk throws m s e rest (p + int (length (run_text node)))"
  using assms
  by (subst walk.simps) (auto simp: Let_def simp del: walk.simps)


lemma walk_painted: "walk throws m s e runs p = painted throws m s e runs p"
proof (induction runs arbitrary: p)
  case Nil
  show ?case by (simp add: painted_def)
next
  case (Cons node rest)
  let ?n = "int (length (run_text node))"
  let ?a = "s - p" and ?b = "min (e - p) ?n"
  show ?case
  proof (cases "p \<le> s \<and> s < p + ?n")
    case True
    then have r: "run_at (node # rest) p s = Some (0, p)" by simp
    have stop: "min e (p + ?n) - p = ?b" by simp
    have lt: "(s < min e (p + ?n)) = (?a < ?b)" by auto
    show ?thesis
    proof (cases "?a < ?b \<and> \<not> throws node (nat ?a) (nat ?b)")
      case paint: True
      have nn: "nat ?b - nat ?a = nat (min e (p + ?n) - s)" using paint True by arith
      from True paint have "walk throws m s e (node # rest) p =
         node\<lparr>run_text := take (nat ?a) (run_text node)\<rparr> #
         \<lparr>run_text = take (nat ?b - nat ?a) (drop (nat ?a) (run_text node)), run_marks = m # run_marks node\<rparr> #
          node\<lparr>run_text := drop (nat ?b) (run_text node)\<rparr> # rest"
        by (intro walk_paint) simp_all
      moreover have "painted throws m s e (node # rest) p =
         node\<lparr>run_text := take (nat ?a) (run_text node)\<rparr> #
         \<lparr>run_text = take (nat (min e (p + ?n) - s)) (drop (nat ?a) (run_text node)), run_marks = m # run_marks node\<rparr> #
          node\<lparr>run_text := drop (nat ?b) (run_text node)\<rparr> # rest"
        using paint unfolding painted_def r by (simp add: marked_at_def stop lt Let_def)
      ultimately show ?thesis using nn by simp
    next
      case False
      then have "walk throws m s e (node # rest) p = node # walk throws m s e rest (p + ?n)"
        by (intro walk_skip) auto
      also have "\<dots> = node # rest" using True by (simp add: walk_past)
      finally show ?thesis using False unfolding painted_def r by (auto simp: stop lt)
    qed
  next
    case False
    then have w: "walk throws m s e (node # rest) p = node # walk throws m s e rest (p + ?n)"
      by (intro walk_skip) auto
    have r: "run_at (node # rest) p s = map_option (\<lambda>(k, q). (Suc k, q)) (run_at rest (p + ?n) s)"
      using False by auto
    show ?thesis
    proof (cases "run_at rest (p + ?n) s")
      case None
      with w r Cons.IH [of "p + ?n"] show ?thesis by (simp add: painted_def)
    next
      case (Some kq)
      obtain k q where kq: "kq = (k, q)" by (cases kq)
      with Some w r Cons.IH [of "p + ?n"] show ?thesis
        by (simp add: painted_def marked_at_def Let_def)
    qed
  qed
qed

lemma run_at_none: "p + int (length (concat (map run_text runs))) \<le> s \<Longrightarrow> run_at runs p s = None"
  by (induction runs arbitrary: p) (simp_all add: add.assoc)

lemma paint_walk:
  "paint throws selected fb runs =
     walk throws (highlight_mark selected fb) (start_index (snd fb)) (end_index (snd fb)) runs 0"
  by (simp add: paint_def highlight_mark_def)





















text \<open>
  Claim C9. For every record, the loop puts a mark only into the one rendered run that
  holds the start index: the mark starts at the start index and ends at the end index or
  at the end of that run, whichever comes first, the other runs stay as they are; and
  when the start index is at or beyond the length of the rendered text, nothing is
  marked.
\<close>

theorem paint_marks_inside_one_run:
  "paint throws selected fb runs =
     painted throws (highlight_mark selected fb) (start_index (snd fb)) (end_index (snd fb)) runs 0 \<and>
   (int (length (concat (map run_text runs))) \<le> start_index (snd fb) \<longrightarrow>
      paint throws selected fb runs = runs)"
proof (intro conjI impI)
  show p: "paint throws selected fb runs =
     painted throws (highlight_mark selected fb) (start_index (snd fb)) (end_index (snd fb)) runs 0"
    by (simp add: paint_walk walk_painted)
  assume "int (length (concat (map run_text runs))) \<le> start_index (snd fb)"
  then have "run_at runs 0 (start_index (snd fb)) = None" by (intro run_at_none) simp
  with p show "paint throws selected fb runs = runs" by (simp add: painted_def)
qed

lemma styled_painted7:
  "painted never (highlight_mark None (7, overlap_record 3 9)) 3 9 styled_runs 0 =
     [\<lparr>run_text = js ''Hel'', run_marks = []\<rparr>,
      \<lparr>run_text = js ''lo '', run_marks = [highlight_mark None (7, overlap_record 3 9)]\<rparr>,
      \<lparr>run_text = [], run_marks = []\<rparr>,
      \<lparr>run_text = js ''brave'', run_marks = []\<rparr>, \<lparr>run_text = js '' world'', run_marks = []\<rparr>]"
  by code_simp

lemma styled_length: "int (length (concat (map run_text styled_runs))) \<le> 17"
  by code_simp

theorem paint_marks_inside_one_run_witness:
  "paint never None (7, overlap_record 3 9) styled_runs =
     [\<lparr>run_text = js ''Hel'', run_marks = []\<rparr>,
      \<lparr>run_text = js ''lo '', run_marks = [highlight_mark None (7, overlap_record 3 9)]\<rparr>,
      \<lparr>run_text = [], run_marks = []\<rparr>,
      \<lparr>run_text = js ''brave'', run_marks = []\<rparr>, \<lparr>run_text = js '' world'', run_marks = []\<rparr>] \<and>
   int (length (concat (map run_text styled_runs))) \<le> start_index (snd (8::nat, overlap_record 17 20)) \<and>
   paint never None (8, overlap_record 17 20) styled_runs = styled_runs"
proof -
  have a: "start_index (snd (7::nat, overlap_record 3 9)) = 3"
    and b: "end_index (snd (7::nat, overlap_record 3 9)) = 9"
    and c: "start_index (snd (8::nat, overlap_record 17 20)) = 17"
    by (simp_all add: overlap_record_def)
  from paint_marks_inside_one_run [where throws = never and selected = None
      and fb = "(7, overlap_record 3 9)" and runs = styled_runs]
  have "paint never None (7, overlap_record 3 9) styled_runs =
     painted never (highlight_mark None (7, overlap_record 3 9)) 3 9 styled_runs 0"
    unfolding a b by (rule conjunct1)
  moreover from paint_marks_inside_one_run [where throws = never and selected = None
      and fb = "(8, overlap_record 17 20)" and runs = styled_runs] styled_length
  have "paint never None (8, overlap_record 17 20) styled_runs = styled_runs"
    unfolding c by blast
  ultimately show ?thesis using styled_length styled_painted7 c by simp
qed

end
